theory Spec2Isabelle
  imports Main "HOL-Library.Char_ord" "HOL-Library.List_Lexorder"
begin

section \<open>Keys: \<open>std::string\<close> under \<open>std::less\<close>\<close>

text \<open>
  A key is a \<open>std::string\<close>, modelled as \<^typ>\<open>string\<close> (a list of 8-bit characters).
  \<open>std::map<std::string, TreeRecord>\<close> compares keys with \<open>operator<\<close> of
  \<open>std::string\<close>: lexicographic on the bytes read as unsigned values, a proper prefix
  being smaller. That is the order \<open>(<)\<close> that \<open>Char_ord\<close> and \<open>List_Lexorder\<close> put on
  \<^typ>\<open>string\<close>.

  \<open>TreeRecord\<close> is declared in \<open>tree_record.h\<close>; \<open>tree.h\<close> only stores and hands out
  its values, so it is the type parameter \<open>'r\<close> throughout.
\<close>

section \<open>The carrier: \<open>std::map<std::string, TreeRecord>\<close>\<close>

text \<open>
  The container is represented by the sequence of its entries in iteration order. The
  class invariant of \<open>std::map\<close> (keys strictly increasing) is part of the type.
\<close>

typedef 'r std_map = "{xs :: (string \<times> 'r) list. sorted_wrt (<) (map fst xs)}"
  morphisms entries Std_map
proof
  show "[] \<in> {xs :: (string \<times> 'r) list. sorted_wrt (<) (map fst xs)}"
    by simp
qed

setup_lifting type_definition_std_map

text \<open>
  \<open>std::map::insert\<close> on the entry sequence: walk to the first entry whose key is not
  smaller than \<open>k\<close>; an entry with an equivalent key (neither smaller than the other)
  blocks the insertion and keeps its value.
\<close>

fun ins :: "string \<Rightarrow> 'r \<Rightarrow> (string \<times> 'r) list \<Rightarrow> (string \<times> 'r) list" where
  "ins k v [] = [(k, v)]"
| "ins k v ((k', v') # xs) =
     (if k' < k then (k', v') # ins k v xs
      else if k < k' then (k, v) # (k', v') # xs
      else (k', v') # xs)"

text \<open>
  \<open>std::map::lower_bound\<close>: the position of the first entry whose key is not smaller
  than \<open>k\<close>, the number of entries when there is none.
\<close>

fun lower_bound :: "string \<Rightarrow> (string \<times> 'r) list \<Rightarrow> nat" where
  "lower_bound k [] = 0"
| "lower_bound k ((k', v') # xs) = (if k' < k then Suc (lower_bound k xs) else 0)"

text \<open>
  \<open>std::map::find\<close>: the lower bound \<open>j\<close>, unless \<open>j\<close> is the end or \<open>k\<close> is smaller
  than the key at \<open>j\<close>; then the end.
\<close>

definition find_pos :: "string \<Rightarrow> (string \<times> 'r) list \<Rightarrow> nat" where
  "find_pos k xs =
     (let j = lower_bound k xs in
      if j = length xs then length xs
      else if k < fst (xs ! j) then length xs
      else j)"

lift_definition map_empty :: "'r std_map" is "[]"
  by simp

lift_definition map_insert :: "string \<Rightarrow> 'r \<Rightarrow> 'r std_map \<Rightarrow> 'r std_map" is ins
proof -
  fix k :: string and v :: 'r and xs :: "(string \<times> 'r) list"
  have above: "\<forall>y \<in> set (map fst ys). a < y \<Longrightarrow> a < k \<Longrightarrow>
      \<forall>y \<in> set (map fst (ins k v ys)). a < y" for a ys
    by (induction ys) (fastforce split: if_splits)+
  assume "sorted_wrt (<) (map fst xs)"
  then show "sorted_wrt (<) (map fst (ins k v xs))"
  proof (induction xs)
    case Nil
    show ?case by simp
  next
    case (Cons p xs)
    obtain k' v' where p: "p = (k', v')" by (cases p)
    from Cons.prems p have rest: "\<forall>y \<in> set (map fst xs). k' < y"
      and tl: "sorted_wrt (<) (map fst xs)" by simp_all
    show ?case
    proof (cases "k' < k")
      case True
      from above [OF rest True] Cons.IH [OF tl] True p
      show ?thesis by simp
    next
      case False
      with Cons.prems p show ?thesis by auto
    qed
  qed
qed

text \<open>
  Construction of a \<open>std::map\<close> from a braced list or a range of pairs: the pairs are
  inserted one after the other, in the order they are supplied.
\<close>

definition map_of_pairs :: "(string \<times> 'r) list \<Rightarrow> 'r std_map" where
  "map_of_pairs ps = fold (\<lambda>(k, v). map_insert k v) ps map_empty"

text \<open>
  The copy constructor builds a fresh container holding a copy of each entry of the
  source container.
\<close>

definition map_copy :: "'r std_map \<Rightarrow> 'r std_map" where
  "map_copy m = map_of_pairs (entries m)"

text \<open>
  A \<open>const_iterator\<close> is the position of an entry in the iteration order of its
  container; \<open>end()\<close> is the position one past the last entry. Only positions before
  \<open>end()\<close> can be dereferenced: \<open>map_deref\<close> returns \<open>None\<close> where C++ leaves the
  behaviour undefined.
\<close>

type_synonym const_iterator = nat

definition map_begin :: "'r std_map \<Rightarrow> const_iterator" where
  "map_begin m = 0"

definition map_end :: "'r std_map \<Rightarrow> const_iterator" where
  "map_end m = length (entries m)"

definition map_find :: "'r std_map \<Rightarrow> string \<Rightarrow> const_iterator" where
  "map_find m k = find_pos k (entries m)"

definition map_deref :: "'r std_map \<Rightarrow> const_iterator \<Rightarrow> (string \<times> 'r) option" where
  "map_deref m it = (if it < map_end m then Some (entries m ! it) else None)"

text \<open>
  Iteration \<open>for (it = begin(); it != end(); ++it)\<close>, collecting what each position
  dereferences to.
\<close>

definition map_iterate :: "'r std_map \<Rightarrow> (string \<times> 'r) list" where
  "map_iterate m = List.map_filter (map_deref m) [map_begin m ..< map_end m]"

section \<open>\<open>class Tree\<close> (\<open>src/libcaf/src/tree.h\<close>)\<close>

text \<open>
  The class has one data member, the public \<open>const\<close> field \<open>records\<close>.
\<close>

record 'r Tree =
  records :: "'r std_map"

text \<open>
  \<open>explicit Tree(const std::map<std::string, TreeRecord>& records): records(records) {}\<close>
  copy-constructs the field from the argument.
\<close>

definition Tree :: "'r std_map \<Rightarrow> 'r Tree" where
  "Tree rs = \<lparr>records = map_copy rs\<rparr>"

text \<open>
  \<open>const_iterator record(const std::string& key) const { return records.find(key); }\<close>
  (\<open>record\<close> is a keyword of Isabelle, hence the suffix).
\<close>

definition record_of :: "'r Tree \<Rightarrow> string \<Rightarrow> const_iterator" where
  "record_of t key = map_find (records t) key"

text \<open>
  The method is \<open>const\<close> and the field is \<open>const\<close>: in state-passing style a call
  returns the iterator together with the object as it was. \<open>lookups\<close> runs a sequence
  of calls on one object and collects the results.
\<close>

definition record_call :: "'r Tree \<Rightarrow> string \<Rightarrow> const_iterator \<times> 'r Tree" where
  "record_call t key = (record_of t key, t)"

fun lookups :: "'r Tree \<Rightarrow> string list \<Rightarrow> const_iterator list \<times> 'r Tree" where
  "lookups t [] = ([], t)"
| "lookups t (k # ks) =
     (case record_call t k of (it, t') \<Rightarrow>
        (case lookups t' ks of (its, t'') \<Rightarrow> (it # its, t'')))"

section \<open>Objects in memory\<close>

text \<open>
  An iterator of \<open>std::map\<close> is a pointer to a node of one particular container, and
  two containers with equal contents have different nodes. To tell them apart, the
  containers are placed in a store: a sequence of cells indexed by address, a cell
  holding the entry of a node or nothing. An address beyond the store is not allocated.
\<close>

type_synonym addr = nat

type_synonym 'r store = "(string \<times> 'r) option list"

definition cell :: "'r store \<Rightarrow> addr \<Rightarrow> (string \<times> 'r) option" where
  "cell s a = (if a < length s then s ! a else None)"

text \<open>
  A \<open>std::map\<close> object: its own end node (\<open>header\<close>, the target of \<open>end()\<close>, which
  holds no entry) and the addresses of its nodes in iteration order.
\<close>

record map_obj =
  header :: addr
  nodes :: "addr list"

text \<open>
  The entries read off the nodes, and the condition under which a \<open>map_obj\<close> is a
  \<open>std::map\<close> of the store: header and nodes allocated, the header empty, the nodes
  pairwise different and holding entries with strictly increasing keys.
\<close>

definition node_entries :: "'r store \<Rightarrow> map_obj \<Rightarrow> (string \<times> 'r) list" where
  "node_entries s r = List.map_filter (cell s) (nodes r)"

definition map_in_store :: "'r store \<Rightarrow> map_obj \<Rightarrow> bool" where
  "map_in_store s r =
     (header r < length s \<and> cell s (header r) = None
      \<and> distinct (nodes r)
      \<and> list_all (\<lambda>a. cell s a \<noteq> None) (nodes r)
      \<and> sorted_wrt (<) (map fst (node_entries s r)))"

text \<open>
  The iterator at a position of the iteration order: the node there, \<open>end()\<close> past
  the last one. \<open>find\<close> returns the iterator at the position that \<open>find_pos\<close> computes
  on the entries; it reads the store and does not change it.
\<close>

definition node_at :: "map_obj \<Rightarrow> nat \<Rightarrow> addr" where
  "node_at r j = (if j < length (nodes r) then nodes r ! j else header r)"

definition store_end :: "map_obj \<Rightarrow> addr" where
  "store_end r = header r"

definition store_find :: "'r store \<Rightarrow> map_obj \<Rightarrow> string \<Rightarrow> addr" where
  "store_find s r k = node_at r (find_pos k (node_entries s r))"

text \<open>
  The copy constructor allocates a new end node and one new node per entry of the
  source, behind everything allocated so far, and leaves the source as it is.
\<close>

definition store_copy :: "'r store \<Rightarrow> map_obj \<Rightarrow> map_obj \<times> 'r store" where
  "store_copy s r =
     (let es = node_entries s r; h = length s in
      (\<lparr>header = h, nodes = map (\<lambda>i. Suc (h + i)) [0 ..< length es]\<rparr>,
       s @ None # map Some es))"

text \<open>
  A \<open>Tree\<close> object holds its \<open>records\<close> member; the constructor copy-constructs the
  member from its argument, and \<open>record\<close> calls \<open>find\<close> on the member.
\<close>

record tree_obj =
  records_obj :: map_obj

definition store_Tree :: "'r store \<Rightarrow> map_obj \<Rightarrow> tree_obj \<times> 'r store" where
  "store_Tree s rs = (case store_copy s rs of (r, s') \<Rightarrow> (\<lparr>records_obj = r\<rparr>, s'))"

definition store_record :: "'r store \<Rightarrow> tree_obj \<Rightarrow> string \<Rightarrow> addr" where
  "store_record s t key = store_find s (records_obj t) key"

text \<open>
  The value that an object of the store stands for.
\<close>

definition abs_map :: "'r store \<Rightarrow> map_obj \<Rightarrow> 'r std_map" where
  "abs_map s r = map_of_pairs (node_entries s r)"

definition abs_tree :: "'r store \<Rightarrow> tree_obj \<Rightarrow> 'r Tree" where
  "abs_tree s t = \<lparr>records = abs_map s (records_obj t)\<rparr>"

section \<open>Facts about the carrier\<close>

lemma entries_sorted: "sorted_wrt (<) (map fst (entries m))"
  using entries [of m] by simp

lemma entries_distinct: "distinct (map fst (entries m))"
  using entries_sorted [of m] by (simp add: strict_sorted_iff)

lemma lower_bound_le: "lower_bound k xs \<le> length xs"
  by (induction xs) auto

lemma lower_bound_not_less:
  "lower_bound k xs < length xs \<Longrightarrow> \<not> fst (xs ! lower_bound k xs) < k"
  by (induction xs) (auto split: if_splits)

lemma find_pos_le: "find_pos k xs \<le> length xs"
  using lower_bound_le [of k xs] by (simp add: find_pos_def Let_def)

lemma find_pos_key:
  assumes "find_pos k xs < length xs"
  shows "fst (xs ! find_pos k xs) = k"
proof -
  let ?j = "lower_bound k xs"
  from assms have j: "?j < length xs" and nl: "\<not> k < fst (xs ! ?j)" and eq: "find_pos k xs = ?j"
    by (auto simp add: find_pos_def Let_def split: if_splits)
  from lower_bound_not_less [OF j] nl have "fst (xs ! ?j) = k" by simp
  with eq show ?thesis by simp
qed

lemma lower_bound_member:
  "sorted_wrt (<) (map fst xs) \<Longrightarrow> (k, r) \<in> set xs \<Longrightarrow>
     lower_bound k xs < length xs \<and> xs ! lower_bound k xs = (k, r)"
proof (induction xs)
  case Nil
  then show ?case by simp
next
  case (Cons p xs)
  obtain k' v' where p: "p = (k', v')" by (cases p)
  show ?case
  proof (cases "(k, r) = p")
    case True
    with p show ?thesis by simp
  next
    case False
    with Cons.prems have mem: "(k, r) \<in> set xs" by simp
    with Cons.prems p have "k' < k" by force
    moreover from Cons.prems have "sorted_wrt (<) (map fst xs)" by simp
    ultimately show ?thesis using Cons.IH mem p by simp
  qed
qed

lemma find_pos_member:
  assumes "sorted_wrt (<) (map fst xs)" and "(k, r) \<in> set xs"
  shows "find_pos k xs < length xs \<and> xs ! find_pos k xs = (k, r)"
  using lower_bound_member [OF assms] by (simp add: find_pos_def Let_def)

lemma find_pos_absent:
  assumes "k \<notin> fst ` set xs"
  shows "find_pos k xs = length xs"
proof (rule ccontr)
  assume "find_pos k xs \<noteq> length xs"
  with find_pos_le [of k xs] have lt: "find_pos k xs < length xs" by simp
  from find_pos_key [OF lt] nth_mem [OF lt] assms show False by force
qed

lemma find_pos_end_iff:
  assumes "sorted_wrt (<) (map fst xs)"
  shows "(find_pos k xs = length xs) = (k \<notin> fst ` set xs)"
proof
  assume e: "find_pos k xs = length xs"
  show "k \<notin> fst ` set xs"
  proof
    assume "k \<in> fst ` set xs"
    then obtain r where "(k, r) \<in> set xs" by force
    from find_pos_member [OF assms this] e show False by simp
  qed
next
  assume "k \<notin> fst ` set xs"
  then show "find_pos k xs = length xs" by (rule find_pos_absent)
qed

lemma ins_snoc:
  "\<forall>y \<in> set (map fst xs). y < k \<Longrightarrow> ins k v xs = xs @ [(k, v)]"
  by (induction xs) auto

lemma fold_ins_sorted:
  "sorted_wrt (<) (map fst (acc @ xs)) \<Longrightarrow> fold (\<lambda>(k, v). ins k v) xs acc = acc @ xs"
proof (induction xs arbitrary: acc)
  case Nil
  show ?case by simp
next
  case (Cons p xs)
  obtain k v where p: "p = (k, v)" by (cases p)
  from Cons.prems p have "\<forall>y \<in> set (map fst acc). y < k"
    by (auto simp add: sorted_wrt_append)
  then have step: "ins k v acc = acc @ [(k, v)]" by (rule ins_snoc)
  from Cons.prems p have "sorted_wrt (<) (map fst ((acc @ [(k, v)]) @ xs))" by simp
  from Cons.IH [OF this] step p show ?case by simp
qed

lemma entries_fold_insert:
  "entries (fold (\<lambda>(k, v). map_insert k v) ps m) = fold (\<lambda>(k, v). ins k v) ps (entries m)"
  by (induction ps arbitrary: m) (auto simp add: map_insert.rep_eq)

lemma entries_map_of_pairs:
  "entries (map_of_pairs ps) = fold (\<lambda>(k, v). ins k v) ps []"
  by (simp add: map_of_pairs_def entries_fold_insert map_empty.rep_eq)

lemma map_copy_id: "map_copy m = m"
proof -
  have "sorted_wrt (<) (map fst ([] @ entries m))" using entries_sorted [of m] by simp
  from fold_ins_sorted [OF this] have "entries (map_copy m) = entries m"
    by (simp add: map_copy_def entries_map_of_pairs)
  then show ?thesis by (simp add: entries_inject)
qed

lemma records_Tree: "records (Tree m) = m"
  by (simp add: Tree_def map_copy_id)

lemma map_filter_nth:
  "List.map_filter (\<lambda>i. if i < length xs then Some (xs ! i) else None) [0..<length xs] = xs"
proof -
  have "List.map_filter (\<lambda>i. if i < length xs then Some (xs ! i) else None) [0..<length xs]
      = map ((!) xs) (filter (\<lambda>i. i < length xs) [0..<length xs])"
    by (rule map_filter_map_filter [symmetric])
  also have "filter (\<lambda>i. i < length xs) [0..<length xs] = [0..<length xs]"
    by (simp add: filter_id_conv)
  finally show ?thesis by (simp add: map_nth)
qed

lemma map_iterate_entries: "map_iterate m = entries m"
  unfolding map_iterate_def map_begin_def map_end_def map_deref_def [abs_def]
  by (simp add: map_end_def map_filter_nth)

lemma ins_keys: "set (map fst (ins k v xs)) = insert k (set (map fst xs))"
proof (induction xs)
  case Nil
  show ?case by simp
next
  case (Cons p xs)
  obtain k' v' where p: "p = (k', v')" by (cases p)
  consider (right) "k' < k" | (left) "k < k'" | (same) "k = k'"
    using less_linear [of k k'] by blast
  then show ?case
  proof cases
    case right
    with Cons.IH p show ?thesis by (simp add: insert_commute)
  next
    case left
    then have "\<not> k' < k" by simp
    with left p show ?thesis by simp
  next
    case same
    with p show ?thesis by simp
  qed
qed

lemma fold_ins_keys:
  "set (map fst (fold (\<lambda>(k, v). ins k v) ps acc)) = set (map fst ps) \<union> set (map fst acc)"
  by (induction ps arbitrary: acc) (auto simp add: ins_keys simp del: set_map)

lemma map_of_pairs_keys: "set (map fst (entries (map_of_pairs ps))) = set (map fst ps)"
  by (simp add: entries_map_of_pairs fold_ins_keys del: set_map)

lemma map_of_pairs_sorted_list:
  "map fst (entries (map_of_pairs ps)) = sorted_list_of_set (set (map fst ps))"
proof -
  have "sorted_list_of_set (set (map fst (entries (map_of_pairs ps)))) = map fst (entries (map_of_pairs ps))"
    using entries_sorted [of "map_of_pairs ps"]
    by (intro sorted_list_of_set.idem_if_sorted_distinct) (simp_all add: strict_sorted_iff)
  then show ?thesis by (simp only: map_of_pairs_keys)
qed

lemma count_distinct:
  "distinct xs \<Longrightarrow> count_list xs x = (if x \<in> set xs then 1 else 0)"
  by (induction xs) auto

lemma ins_fresh:
  "k \<notin> fst ` set xs \<Longrightarrow> set (ins k v xs) = insert (k, v) (set xs)"
proof (induction xs)
  case Nil
  show ?case by simp
next
  case (Cons p xs)
  obtain k' v' where p: "p = (k', v')" by (cases p)
  from Cons.prems p have ne: "k \<noteq> k'" and fresh: "k \<notin> fst ` set xs" by auto
  from ne consider (right) "k' < k" | (left) "k < k'" "\<not> k' < k"
    using less_linear [of k k'] by auto
  then show ?case
  proof cases
    case right
    with Cons.IH [OF fresh] p show ?thesis by (simp add: insert_commute)
  next
    case left
    with p show ?thesis by simp
  qed
qed

lemma fold_ins_fresh:
  "distinct (map fst ps) \<Longrightarrow> set (map fst ps) \<inter> set (map fst acc) = {} \<Longrightarrow>
     set (fold (\<lambda>(k, v). ins k v) ps acc) = set ps \<union> set acc"
proof (induction ps arbitrary: acc)
  case Nil
  show ?case by simp
next
  case (Cons p ps)
  obtain k v where p: "p = (k, v)" by (cases p)
  from Cons.prems p have fresh: "k \<notin> fst ` set acc" by auto
  from Cons.prems p have d: "distinct (map fst ps)" and nk: "k \<notin> set (map fst ps)"
    by simp_all
  from Cons.prems p nk have "set (map fst ps) \<inter> set (map fst (ins k v acc)) = {}"
    by (simp only: ins_keys) auto
  from Cons.IH [OF d this] ins_fresh [OF fresh, of v] p show ?case by simp
qed

lemma map_of_pairs_distinct:
  "distinct (map fst ps) \<Longrightarrow> set (entries (map_of_pairs ps)) = set ps"
  using fold_ins_fresh [of ps "[]"] by (simp add: entries_map_of_pairs)

lemma record_of_Tree: "record_of (Tree m) k = find_pos k (entries m)"
  by (simp add: record_of_def map_find_def records_Tree)

lemma lower_bound_Nil_key: "lower_bound [] xs = 0"
  by (cases xs) auto

section \<open>Facts about objects in memory\<close>

lemma map_filter_all_some:
  assumes "list_all (\<lambda>a. f a \<noteq> None) as"
  shows "List.map_filter f as = map (the \<circ> f) as"
  using assms by (induction as) (auto simp add: map_filter_simps)

lemma node_entries_length:
  "map_in_store s r \<Longrightarrow> length (node_entries s r) = length (nodes r)"
  by (simp add: map_in_store_def node_entries_def map_filter_all_some)

lemma node_entries_nth:
  assumes "map_in_store s r" and "j < length (nodes r)"
  shows "cell s (nodes r ! j) = Some (node_entries s r ! j)"
proof -
  from assms have "cell s (nodes r ! j) \<noteq> None"
    by (simp add: map_in_store_def list_all_length)
  moreover from assms have "node_entries s r ! j = the (cell s (nodes r ! j))"
    by (simp add: map_in_store_def node_entries_def map_filter_all_some)
  ultimately show ?thesis by auto
qed

lemma entries_abs_map:
  "map_in_store s r \<Longrightarrow> entries (abs_map s r) = node_entries s r"
  using fold_ins_sorted [of "[]" "node_entries s r"]
  by (simp add: abs_map_def entries_map_of_pairs map_in_store_def)

lemma store_find_hit:
  assumes wf: "map_in_store s r" and k: "k \<in> fst ` set (node_entries s r)"
  shows "store_find s r k \<in> set (nodes r) \<and> (\<exists>v. cell s (store_find s r k) = Some (k, v))"
proof -
  let ?xs = "node_entries s r" and ?j = "find_pos k (node_entries s r)"
  from wf have srt: "sorted_wrt (<) (map fst ?xs)" by (simp add: map_in_store_def)
  from find_pos_end_iff [OF srt, of k] k find_pos_le [of k ?xs]
  have lt: "?j < length ?xs" by simp
  with node_entries_length [OF wf] have lt': "?j < length (nodes r)" by simp
  from find_pos_key [OF lt] have "?xs ! ?j = (k, snd (?xs ! ?j))" by (simp add: prod_eq_iff)
  with node_entries_nth [OF wf lt'] lt' show ?thesis
    by (auto simp add: store_find_def node_at_def)
qed

lemma store_find_miss:
  assumes wf: "map_in_store s r"
  shows "(store_find s r k = header r) = (k \<notin> fst ` set (node_entries s r))"
proof
  assume "k \<notin> fst ` set (node_entries s r)"
  from find_pos_absent [OF this] node_entries_length [OF wf]
  show "store_find s r k = header r" by (simp add: store_find_def node_at_def)
next
  assume e: "store_find s r k = header r"
  show "k \<notin> fst ` set (node_entries s r)"
  proof
    assume "k \<in> fst ` set (node_entries s r)"
    from store_find_hit [OF wf this] e wf show False by (auto simp add: map_in_store_def)
  qed
qed

lemma cell_append_old: "a < length s \<Longrightarrow> cell (s @ s') a = cell s a"
  by (simp add: cell_def nth_append)

lemma cell_Some_bound: "cell s a \<noteq> None \<Longrightarrow> a < length s"
  by (simp add: cell_def split: if_splits)

lemma map_filter_agree:
  "\<forall>a \<in> set as. f a = g a \<Longrightarrow> List.map_filter f as = List.map_filter g as"
  by (induction as) (auto simp add: map_filter_simps split: option.splits)

lemma node_entries_append:
  assumes "list_all (\<lambda>a. cell s a \<noteq> None) (nodes r)"
  shows "node_entries (s @ s') r = node_entries s r"
proof -
  have same: "cell (s @ s') a = cell s a" if "a \<in> set (nodes r)" for a
  proof -
    from assms that have "cell s a \<noteq> None" by (simp add: list_all_iff)
    then have "a < length s" by (rule cell_Some_bound)
    then show ?thesis by (rule cell_append_old)
  qed
  from same have "List.map_filter (cell (s @ s')) (nodes r) = List.map_filter (cell s) (nodes r)"
    by (intro map_filter_agree) simp
  then show ?thesis by (simp add: node_entries_def)
qed

lemma node_entries_fresh_block:
  "List.map_filter (cell (s @ None # map Some es))
     (map (\<lambda>i. Suc (length s + i)) [0 ..< length es]) = es"
proof -
  let ?s' = "s @ None # map Some es"
  let ?as = "map (\<lambda>i. Suc (length s + i)) [0 ..< length es]"
  have at: "cell ?s' (Suc (length s + i)) = Some (es ! i)" if "i < length es" for i
    using that by (simp add: cell_def nth_append)
  have "list_all (\<lambda>a. cell ?s' a \<noteq> None) ?as"
    using at by (auto simp add: list_all_iff)
  then have "List.map_filter (cell ?s') ?as = map (the \<circ> cell ?s') ?as"
    by (rule map_filter_all_some)
  also have "\<dots> = es"
    by (rule nth_equalityI) (simp_all add: at)
  finally show ?thesis .
qed

lemma store_copy_props:
  assumes wf: "map_in_store s m" and c: "store_copy s m = (r, s')"
  shows "map_in_store s' r" and "node_entries s' r = node_entries s m"
    and "set (nodes r) \<inter> set (nodes m) = {}" and "header r \<notin> set (nodes m)"
    and "header m \<notin> set (nodes r)" and "header r \<noteq> header m"
    and "map_in_store s' m" and "node_entries s' m = node_entries s m"
proof -
  let ?es = "node_entries s m" and ?n = "length s"
  from c have hr: "header r = ?n"
    and nr: "nodes r = map (\<lambda>i. Suc (?n + i)) [0 ..< length ?es]"
    and s': "s' = s @ None # map Some ?es"
    by (auto simp add: store_copy_def Let_def)
  from wf have alloc: "list_all (\<lambda>a. cell s a \<noteq> None) (nodes m)"
    and srt: "sorted_wrt (<) (map fst ?es)" and hm: "header m < ?n"
    and hnone: "cell s (header m) = None" and dist: "distinct (nodes m)"
    by (simp_all add: map_in_store_def)
  have old: "a < ?n" if "a \<in> set (nodes m)" for a
    using alloc that cell_Some_bound [of s a] by (simp add: list_all_iff)
  have "node_entries s' r = List.map_filter (cell s') (nodes r)"
    by (rule node_entries_def)
  also have "\<dots> = ?es"
    unfolding nr s' by (rule node_entries_fresh_block)
  finally show e: "node_entries s' r = ?es" .
  have at: "cell s' (Suc (?n + i)) \<noteq> None" if "i < length ?es" for i
    using that unfolding s' by (simp add: cell_def nth_append)
  have all: "list_all (\<lambda>a. cell s' a \<noteq> None) (nodes r)"
    using at by (auto simp add: list_all_iff nr)
  have hcell: "cell s' (header r) = None"
    unfolding s' hr by (simp add: cell_def nth_append)
  have hlen: "header r < length s'" unfolding s' hr by simp
  have "distinct (nodes r)" unfolding nr by (simp add: distinct_map inj_on_def)
  with all e srt hcell hlen show "map_in_store s' r"
    by (simp add: map_in_store_def)
  have new: "?n < a" if "a \<in> set (nodes r)" for a
    using that by (auto simp add: nr)
  show "set (nodes r) \<inter> set (nodes m) = {}"
  proof (rule ccontr)
    assume "set (nodes r) \<inter> set (nodes m) \<noteq> {}"
    then obtain a where "a \<in> set (nodes r)" and "a \<in> set (nodes m)" by blast
    from new [OF this(1)] old [OF this(2)] show False by simp
  qed
  show "header r \<notin> set (nodes m)" using old [of "header r"] by (auto simp add: hr)
  show "header m \<notin> set (nodes r)" using hm new [of "header m"] by auto
  show "header r \<noteq> header m" using hm by (simp add: hr)
  show e': "node_entries s' m = ?es"
    unfolding s' by (rule node_entries_append [OF alloc])
  have "cell s' a \<noteq> None" if "a \<in> set (nodes m)" for a
  proof -
    from alloc that have "cell s a \<noteq> None" by (simp add: list_all_iff)
    with old [OF that] show ?thesis unfolding s' by (simp add: cell_append_old)
  qed
  then have "list_all (\<lambda>a. cell s' a \<noteq> None) (nodes m)"
    by (simp add: list_all_iff)
  moreover have "cell s' (header m) = None"
    using hm hnone unfolding s' by (simp add: cell_append_old)
  moreover have "header m < length s'" using hm unfolding s' by simp
  ultimately show "map_in_store s' m"
    using dist srt e' by (simp add: map_in_store_def)
qed

section \<open>Properties of \<open>Tree\<close>\<close>

subsection \<open>Lookup on a constructed instance\<close>

text \<open>
  C1. Let \<open>m\<close> be the mapping handed to the constructor. If \<open>k\<close> is bound to \<open>r\<close> in
  \<open>m\<close>, the iterator returned by \<open>record(k)\<close> designates the entry \<open>(k, r)\<close>. If \<open>k\<close> is not
  bound in \<open>m\<close>, \<open>record(k)\<close> is \<open>records.end()\<close>, which designates no entry. Whatever the
  returned iterator designates is an entry of \<open>m\<close>: no record is made up.
\<close>

theorem Tree_lookup_correct:
  "((k, r) \<in> set (entries m) \<longrightarrow>
      map_deref (records (Tree m)) (record_of (Tree m) k) = Some (k, r))
   \<and> (k \<notin> fst ` set (entries m) \<longrightarrow>
      record_of (Tree m) k = map_end (records (Tree m))
      \<and> map_deref (records (Tree m)) (record_of (Tree m) k) = None)
   \<and> (\<forall>e. map_deref (records (Tree m)) (record_of (Tree m) k) = Some e \<longrightarrow>
      e \<in> set (entries m))"
proof (intro conjI impI allI)
  assume "(k, r) \<in> set (entries m)"
  from find_pos_member [OF entries_sorted this]
  show "map_deref (records (Tree m)) (record_of (Tree m) k) = Some (k, r)"
    by (simp add: map_deref_def map_end_def record_of_Tree records_Tree)
next
  assume "k \<notin> fst ` set (entries m)"
  then have e: "find_pos k (entries m) = length (entries m)" by (rule find_pos_absent)
  then show "record_of (Tree m) k = map_end (records (Tree m))"
    by (simp add: map_end_def record_of_Tree records_Tree)
  from e show "map_deref (records (Tree m)) (record_of (Tree m) k) = None"
    by (simp add: map_deref_def map_end_def record_of_Tree records_Tree)
next
  fix e
  assume "map_deref (records (Tree m)) (record_of (Tree m) k) = Some e"
  then show "e \<in> set (entries m)"
    by (auto simp add: map_deref_def map_end_def record_of_Tree records_Tree split: if_splits)
qed

theorem Tree_lookup_correct_witness:
  "(''x'', ''Rx'') \<in> set (entries (map_of_pairs [(''x'', ''Rx'')]))
   \<and> map_deref (records (Tree (map_of_pairs [(''x'', ''Rx'')])))
        (record_of (Tree (map_of_pairs [(''x'', ''Rx'')])) ''x'') = Some (''x'', ''Rx'')
   \<and> ''y'' \<notin> fst ` set (entries (map_of_pairs [(''x'', ''Rx'')]))
   \<and> record_of (Tree (map_of_pairs [(''x'', ''Rx'')])) ''y''
        = map_end (records (Tree (map_of_pairs [(''x'', ''Rx'')])))
   \<and> map_deref (records (Tree (map_of_pairs [(''x'', ''Rx'')])))
        (record_of (Tree (map_of_pairs [(''x'', ''Rx'')])) ''y'') = None"
proof -
  let ?m = "map_of_pairs [(''x'', ''Rx'')]"
  have present: "(''x'', ''Rx'') \<in> set (entries ?m)"
    by (simp add: entries_map_of_pairs)
  have absent: "''y'' \<notin> fst ` set (entries ?m)"
    by (simp add: entries_map_of_pairs)
  from Tree_lookup_correct [of "''x''" "''Rx''" ?m] present
  have hit: "map_deref (records (Tree ?m)) (record_of (Tree ?m) ''x'') = Some (''x'', ''Rx'')"
    by blast
  from Tree_lookup_correct [of "''y''" "''Rx''" ?m] absent
  have miss: "record_of (Tree ?m) ''y'' = map_end (records (Tree ?m))
      \<and> map_deref (records (Tree ?m)) (record_of (Tree ?m) ''y'') = None"
    by blast
  from present absent hit miss show ?thesis by blast
qed

subsection \<open>Iteration order\<close>

text \<open>
  C2. Iterating the bindings of a constructed instance yields strictly increasing keys.
  When the mapping was assembled from pairs supplied in any order, the keys iterate as the
  sorted list of the set of supplied keys; supplying \<open>a\<close>, \<open>c\<close>, \<open>b\<close> iterates as
  \<open>a\<close>, \<open>b\<close>, \<open>c\<close>.
\<close>

theorem Tree_iteration_sorted:
  "sorted_wrt (<) (map fst (map_iterate (records (Tree m))))
   \<and> map fst (map_iterate (records (Tree (map_of_pairs ps))))
       = sorted_list_of_set (set (map fst ps))
   \<and> map fst (map_iterate (records (Tree (map_of_pairs [(''a'', R1), (''c'', R3), (''b'', R2)]))))
       = [''a'', ''b'', ''c'']"
proof (intro conjI)
  show "sorted_wrt (<) (map fst (map_iterate (records (Tree m))))"
    by (simp only: map_iterate_entries records_Tree entries_sorted)
  show "map fst (map_iterate (records (Tree (map_of_pairs ps))))
       = sorted_list_of_set (set (map fst ps))"
    by (simp only: map_iterate_entries records_Tree map_of_pairs_sorted_list)
  show "map fst (map_iterate (records (Tree (map_of_pairs [(''a'', R1), (''c'', R3), (''b'', R2)]))))
       = [''a'', ''b'', ''c'']"
    by (simp add: map_iterate_entries records_Tree entries_map_of_pairs)
qed

subsection \<open>Uniqueness of keys\<close>

text \<open>
  C3. In a constructed instance every key occurs exactly once among the stored bindings
  (and a key that was not bound does not occur). The carrier already has distinct keys
  when it is assembled from arbitrary pairs, repeated keys included, so an instance built
  from it holds each supplied key once.
\<close>

theorem Tree_keys_unique:
  "distinct (map fst (entries (records (Tree m))))
   \<and> count_list (map fst (entries (records (Tree m)))) k
       = (if k \<in> fst ` set (entries m) then 1 else 0)
   \<and> distinct (map fst (entries (map_of_pairs ps)))
   \<and> count_list (map fst (entries (records (Tree (map_of_pairs ps))))) k
       = (if k \<in> fst ` set ps then 1 else 0)"
proof (intro conjI)
  show "distinct (map fst (entries (records (Tree m))))"
    by (rule entries_distinct)
  show "count_list (map fst (entries (records (Tree m)))) k
       = (if k \<in> fst ` set (entries m) then 1 else 0)"
    using count_distinct [OF entries_distinct [of m], of k] by (simp add: records_Tree)
  show "distinct (map fst (entries (map_of_pairs ps)))"
    by (rule entries_distinct)
  show "count_list (map fst (entries (records (Tree (map_of_pairs ps))))) k
       = (if k \<in> fst ` set ps then 1 else 0)"
    using count_distinct [OF entries_distinct [of "map_of_pairs ps"], of k] map_of_pairs_keys [of ps]
    by (simp add: records_Tree)
qed

subsection \<open>Lookup leaves the instance alone\<close>

text \<open>
  C4. Any sequence of \<open>record\<close> calls leaves the object, and so its bindings, as they
  were; each call returns what a call on the fresh object returns, so repeating a call
  with the same key repeats the result.
\<close>

theorem lookups_frame:
  "snd (lookups t ks) = t
   \<and> entries (records (snd (lookups t ks))) = entries (records t)
   \<and> fst (lookups t ks) = map (record_of t) ks
   \<and> fst (lookups t (replicate n k)) = replicate n (record_of t k)
   \<and> record_of (snd (lookups t ks)) k = record_of t k"
proof -
  have run: "lookups t ks = (map (record_of t) ks, t)" for ks
    by (induction ks) (simp_all add: record_call_def)
  show ?thesis by (simp add: run)
qed

subsection \<open>Absence is the only non-success\<close>

text \<open>
  C5. For every object and every string, \<open>record\<close> returns either \<open>records.end()\<close> or
  an iterator designating an entry with the requested key. It returns \<open>records.end()\<close>
  exactly when the key is not bound, and \<open>records.end()\<close> is the only result that cannot
  be dereferenced.
\<close>

theorem lookup_outcomes:
  "(record_of t k = map_end (records t)
      \<or> (\<exists>r. map_deref (records t) (record_of t k) = Some (k, r)))
   \<and> (record_of t k = map_end (records t)) = (k \<notin> fst ` set (entries (records t)))
   \<and> (map_deref (records t) (record_of t k) = None) = (record_of t k = map_end (records t))"
proof -
  let ?xs = "entries (records t)"
  have le: "find_pos k ?xs \<le> length ?xs" by (rule find_pos_le)
  have key: "find_pos k ?xs < length ?xs \<Longrightarrow> fst (?xs ! find_pos k ?xs) = k"
    by (rule find_pos_key)
  have iff: "(find_pos k ?xs = length ?xs) = (k \<notin> fst ` set ?xs)"
    by (rule find_pos_end_iff [OF entries_sorted])
  have one: "record_of t k = map_end (records t)
      \<or> (\<exists>r. map_deref (records t) (record_of t k) = Some (k, r))"
  proof (cases "find_pos k ?xs = length ?xs")
    case True
    then show ?thesis by (simp add: record_of_def map_find_def map_end_def)
  next
    case False
    with le have lt: "find_pos k ?xs < length ?xs" by simp
    from key [OF lt] have "?xs ! find_pos k ?xs = (k, snd (?xs ! find_pos k ?xs))"
      by (simp add: prod_eq_iff)
    with lt show ?thesis
      by (auto simp add: record_of_def map_find_def map_end_def map_deref_def)
  qed
  have two: "(record_of t k = map_end (records t)) = (k \<notin> fst ` set ?xs)"
    using iff by (simp add: record_of_def map_find_def map_end_def)
  have three: "(map_deref (records t) (record_of t k) = None) = (record_of t k = map_end (records t))"
    using le by (auto simp add: record_of_def map_find_def map_end_def map_deref_def)
  from one two three show ?thesis by blast
qed

subsection \<open>Construction copies the mapping\<close>

text \<open>
  C6. The constructor is defined on every mapping and the \<open>records\<close> field of the new
  object equals the mapping supplied: iteration yields exactly its entries. When that
  mapping was assembled from pairs with distinct keys, the stored bindings are exactly
  those pairs.
\<close>

theorem Tree_construct_exact:
  "records (Tree m) = m
   \<and> map_iterate (records (Tree m)) = entries m
   \<and> (distinct (map fst ps) \<longrightarrow>
        set (map_iterate (records (Tree (map_of_pairs ps)))) = set ps)"
  by (simp add: records_Tree map_iterate_entries map_of_pairs_distinct)

theorem Tree_construct_exact_witness:
  "distinct (map fst [(''b'', ''R2''), (''a'', ''R1'')])
   \<and> set (map_iterate (records (Tree (map_of_pairs [(''b'', ''R2''), (''a'', ''R1'')]))))
       = set [(''b'', ''R2''), (''a'', ''R1'')]
   \<and> map_iterate (records (Tree (map_of_pairs [(''b'', ''R2''), (''a'', ''R1'')])))
       = [(''a'', ''R1''), (''b'', ''R2'')]"
proof -
  let ?ps = "[(''b'', ''R2''), (''a'', ''R1'')]"
  have d: "distinct (map fst ?ps)" by simp
  from Tree_construct_exact [of "map_of_pairs ?ps" ?ps] d
  have s: "set (map_iterate (records (Tree (map_of_pairs ?ps)))) = set ?ps" by blast
  have "map_iterate (records (Tree (map_of_pairs ?ps))) = [(''a'', ''R1''), (''b'', ''R2'')]"
    by (simp add: map_iterate_entries records_Tree entries_map_of_pairs)
  with d s show ?thesis by blast
qed

subsection \<open>The empty instance\<close>

text \<open>
  C7. An instance constructed from the empty mapping has no bindings, and \<open>record(k)\<close>
  is \<open>records.end()\<close>, designating nothing, for every string \<open>k\<close>.
\<close>

theorem Tree_empty_lookup:
  "entries (records (Tree map_empty)) = []
   \<and> record_of (Tree map_empty) k = map_end (records (Tree map_empty))
   \<and> map_deref (records (Tree map_empty)) (record_of (Tree map_empty) k) = None"
  by (simp add: records_Tree record_of_Tree map_empty.rep_eq map_end_def map_deref_def find_pos_def)

subsection \<open>The accessor and the field\<close>

text \<open>
  C9. \<open>t.record(k)\<close> is \<open>t.records.find(k)\<close>, on values and on objects in memory.
  For a \<open>Tree\<close> object whose \<open>records\<close> member is a map of the store, the address
  returned is the iterator of that member at the position the lookup computes, and
  reading it gives what the lookup dereferences to; it is the member's own \<open>end()\<close>
  exactly when \<open>k\<close> is not bound, and one of the member's own nodes when \<open>k\<close> is bound.
  For an object built by the constructor from a map \<open>m\<close> of the store, the object stands
  for \<open>Tree\<close> of the value of \<open>m\<close>, and a lookup never returns a node or the end of \<open>m\<close>:
  it points into the object's own \<open>records\<close>.
\<close>

theorem record_is_view_into_records:
  "record_of v k = map_find (records v) k
   \<and> store_record s t k = store_find s (records_obj t) k
   \<and> (map_in_store s (records_obj t) \<longrightarrow>
        store_record s t k = node_at (records_obj t) (record_of (abs_tree s t) k)
        \<and> cell s (store_record s t k) = map_deref (records (abs_tree s t)) (record_of (abs_tree s t) k)
        \<and> (store_record s t k = store_end (records_obj t)) = (k \<notin> fst ` set (node_entries s (records_obj t)))
        \<and> (k \<in> fst ` set (node_entries s (records_obj t)) \<longrightarrow>
             store_record s t k \<in> set (nodes (records_obj t))))
   \<and> (map_in_store s m \<longrightarrow>
        map_in_store (snd (store_Tree s m)) (records_obj (fst (store_Tree s m)))
        \<and> abs_tree (snd (store_Tree s m)) (fst (store_Tree s m)) = Tree (abs_map s m)
        \<and> store_record (snd (store_Tree s m)) (fst (store_Tree s m)) k \<notin> set (nodes m)
        \<and> store_record (snd (store_Tree s m)) (fst (store_Tree s m)) k \<noteq> header m)"
proof (intro conjI impI)
  show "record_of v k = map_find (records v) k" by (simp add: record_of_def)
  show "store_record s t k = store_find s (records_obj t) k" by (simp add: store_record_def)
next
  assume wf: "map_in_store s (records_obj t)"
  let ?r = "records_obj t" and ?xs = "node_entries s (records_obj t)"
  have ent: "entries (records (abs_tree s t)) = ?xs"
    by (simp add: abs_tree_def entries_abs_map [OF wf])
  have pos: "record_of (abs_tree s t) k = find_pos k ?xs"
    by (simp add: record_of_def map_find_def ent)
  show "store_record s t k = node_at ?r (record_of (abs_tree s t) k)"
    by (simp add: pos store_record_def store_find_def)
  show "(store_record s t k = store_end ?r) = (k \<notin> fst ` set ?xs)"
    using store_find_miss [OF wf, of k] by (simp add: store_record_def store_end_def)
  show "cell s (store_record s t k) = map_deref (records (abs_tree s t)) (record_of (abs_tree s t) k)"
  proof (cases "find_pos k ?xs < length ?xs")
    case True
    with node_entries_length [OF wf] have "find_pos k ?xs < length (nodes ?r)" by simp
    from node_entries_nth [OF wf this] True this show ?thesis
      by (simp add: pos ent store_record_def store_find_def node_at_def map_deref_def map_end_def)
  next
    case False
    with node_entries_length [OF wf] wf show ?thesis
      by (simp add: pos ent store_record_def store_find_def node_at_def map_deref_def map_end_def
          map_in_store_def)
  qed
next
  assume wf: "map_in_store s (records_obj t)" and "k \<in> fst ` set (node_entries s (records_obj t))"
  from store_find_hit [OF this] show "store_record s t k \<in> set (nodes (records_obj t))"
    by (simp add: store_record_def)
next
  assume wf: "map_in_store s m"
  obtain r s' where c: "store_copy s m = (r, s')" by (cases "store_copy s m")
  then have t: "fst (store_Tree s m) = \<lparr>records_obj = r\<rparr>" and st: "snd (store_Tree s m) = s'"
    by (simp_all add: store_Tree_def)
  note props = store_copy_props [OF wf c]
  show "map_in_store (snd (store_Tree s m)) (records_obj (fst (store_Tree s m)))"
    using props(1) by (simp add: t st)
  show "abs_tree (snd (store_Tree s m)) (fst (store_Tree s m)) = Tree (abs_map s m)"
    using props(2) by (simp add: t st abs_tree_def Tree_def map_copy_id abs_map_def)
  have "store_find s' r k \<in> set (nodes r) \<or> store_find s' r k = header r"
    using store_find_hit [OF props(1), of k] store_find_miss [OF props(1), of k] by blast
  with props(3) props(4) props(5) props(6)
  show "store_record (snd (store_Tree s m)) (fst (store_Tree s m)) k \<notin> set (nodes m)"
    and "store_record (snd (store_Tree s m)) (fst (store_Tree s m)) k \<noteq> header m"
    by (auto simp add: t st store_record_def)
qed

theorem record_is_view_into_records_witness:
  "map_in_store [None, Some (''a'', ''R1''), Some (''b'', ''R2'')] \<lparr>header = 0, nodes = [1, 2]\<rparr>
   \<and> ''b'' \<in> fst ` set (node_entries [None, Some (''a'', ''R1''), Some (''b'', ''R2'')]
                         \<lparr>header = 0, nodes = [1, 2]\<rparr>)
   \<and> store_record [None, Some (''a'', ''R1''), Some (''b'', ''R2'')]
        \<lparr>records_obj = \<lparr>header = 0, nodes = [1, 2]\<rparr>\<rparr> ''b'' \<in> set [1, 2]
   \<and> store_record (snd (store_Tree [None, Some (''a'', ''R1''), Some (''b'', ''R2'')]
                          \<lparr>header = 0, nodes = [1, 2]\<rparr>))
        (fst (store_Tree [None, Some (''a'', ''R1''), Some (''b'', ''R2'')]
                          \<lparr>header = 0, nodes = [1, 2]\<rparr>)) ''b'' \<notin> set [1, 2]"
proof -
  let ?s = "[None, Some (''a'', ''R1''), Some (''b'', ''R2'')]"
  let ?m = "\<lparr>header = 0, nodes = [1, 2]\<rparr>"
  let ?t = "\<lparr>records_obj = ?m\<rparr>"
  have ents: "node_entries ?s ?m = [(''a'', ''R1''), (''b'', ''R2'')]"
    by (simp add: node_entries_def map_filter_simps cell_def)
  have wf: "map_in_store ?s ?m"
    using ents by (simp add: map_in_store_def cell_def)
  have bound: "''b'' \<in> fst ` set (node_entries ?s ?m)"
    using ents by simp
  have sel: "records_obj ?t = ?m" by simp
  from record_is_view_into_records [of "abs_tree ?s ?t" "''b''" ?s ?t ?m] wf bound
  have "store_record ?s ?t ''b'' \<in> set (nodes (records_obj ?t))
      \<and> store_record (snd (store_Tree ?s ?m)) (fst (store_Tree ?s ?m)) ''b'' \<notin> set (nodes ?m)"
    unfolding sel by blast
  with wf bound show ?thesis by simp
qed

subsection \<open>Totality and validity of the returned iterator\<close>

text \<open>
  C10. For every object and every string, \<open>record\<close> returns a position of \<open>records\<close>
  up to \<open>end()\<close>; it is \<open>end()\<close> exactly when the key is not bound; a position before
  \<open>end()\<close> holds an entry of \<open>records\<close> whose key is the requested one; the result can be
  dereferenced exactly when the key is bound. The empty string is a key like any other:
  being the least string, it is found at \<open>begin()\<close> when bound.
\<close>

theorem record_of_total:
  "record_of t k \<le> map_end (records t)
   \<and> (record_of t k = map_end (records t)) = (k \<notin> fst ` set (entries (records t)))
   \<and> (record_of t k < map_end (records t) \<longrightarrow>
        fst (entries (records t) ! record_of t k) = k
        \<and> entries (records t) ! record_of t k \<in> set (entries (records t)))
   \<and> (map_deref (records t) (record_of t k) \<noteq> None) = (k \<in> fst ` set (entries (records t)))
   \<and> record_of t [] = (if [] \<in> fst ` set (entries (records t)) then map_begin (records t)
                        else map_end (records t))"
proof -
  let ?xs = "entries (records t)"
  have le: "find_pos k ?xs \<le> length ?xs" by (rule find_pos_le)
  have key: "find_pos k ?xs < length ?xs \<Longrightarrow> fst (?xs ! find_pos k ?xs) = k"
    by (rule find_pos_key)
  have iff: "(find_pos k ?xs = length ?xs) = (k \<notin> fst ` set ?xs)" for k
    by (rule find_pos_end_iff [OF entries_sorted])
  have c1: "record_of t k \<le> map_end (records t)"
    using le by (simp add: record_of_def map_find_def map_end_def)
  have c2: "(record_of t k = map_end (records t)) = (k \<notin> fst ` set ?xs)"
    using iff by (simp add: record_of_def map_find_def map_end_def)
  have c3: "record_of t k < map_end (records t) \<longrightarrow>
        fst (?xs ! record_of t k) = k \<and> ?xs ! record_of t k \<in> set ?xs"
    using key by (simp add: record_of_def map_find_def map_end_def)
  have c4: "(map_deref (records t) (record_of t k) \<noteq> None) = (k \<in> fst ` set ?xs)"
    using iff [of k] le by (auto simp add: record_of_def map_find_def map_end_def map_deref_def)
  have c5: "record_of t [] = (if [] \<in> fst ` set ?xs then map_begin (records t)
                        else map_end (records t))"
    using iff [of "[]"]
    by (auto simp add: record_of_def map_find_def map_end_def map_begin_def find_pos_def
        lower_bound_Nil_key Let_def)
  from c1 c2 c3 c4 c5 show ?thesis by blast
qed

theorem record_of_total_witness:
  "record_of (Tree (map_of_pairs [(''x'', ''Rx'')])) ''x''
     < map_end (records (Tree (map_of_pairs [(''x'', ''Rx'')])))
   \<and> fst (entries (records (Tree (map_of_pairs [(''x'', ''Rx'')])))
        ! record_of (Tree (map_of_pairs [(''x'', ''Rx'')])) ''x'') = ''x''"
  using record_of_total [of "Tree (map_of_pairs [(''x'', ''Rx'')])" "''x''"]
  by (simp add: record_of_Tree records_Tree entries_map_of_pairs map_end_def find_pos_def)

end
